theory Spec2Isabelle
  imports Main "HOL-Library.Word"
begin

section \<open>The page allocator of allocator/page\_allocator.h\<close>

text \<open>
  The arena \<open>mem_pool\<close> keeps one anonymous mapping obtained from the host:
  a leading guard page, the usable area, a trailing guard page. It hands out
  slots of \<open>sizeof(elem_type)\<close> bytes by bumping \<open>occupied_slots\<close> and makes pages
  readable and writable on demand. Addresses and \<open>std::size_t\<close> values are 64-bit
  words (the source casts pointers to \<open>uint64_t\<close>); \<open>pagesize\<close> is a C \<open>int\<close>,
  a 32-bit word that is sign-extended wherever the source mixes it with a
  64-bit operand. The null pointer is the word 0. Pointer arithmetic on
  \<open>elem_type *\<close> is address arithmetic scaled by the slot size \<open>sz\<close>, which is a
  parameter of every function that needs \<open>sizeof(elem_type)\<close>.
\<close>

type_synonym addr = "64 word"
type_synonym size_t = "64 word"
type_synonym cint = "32 word"

subsection \<open>The host: sysconf, mmap, mprotect, munmap\<close>

text \<open>
  The four system calls are not code of the repository. The host is a record:
  the answers it will give, indexed by the number of calls made so far (so
  that any sequence of outcomes can be described), the call counter, and the
  set of page addresses that are currently readable and writable.
  \<^item> \<open>h_pagesize\<close> is \<open>sysconf(_SC_PAGE_SIZE)\<close> as it is stored into the \<open>int\<close>
    field (\<open>-1\<close> is failure).
  \<^item> \<open>h_mmap k len\<close> is the address returned by the \<open>k\<close>-th call when it is
    \<open>mmap(NULL, len, PROT_NONE, MAP_ANONYMOUS | MAP_PRIVATE, -1, 0)\<close>, or
    \<open>MAP_FAILED\<close>.
  \<^item> \<open>h_mprotect k pg len\<close> tells whether the host has the resources to change
    the protection of \<open>len\<close> bytes at \<open>pg\<close> in the \<open>k\<close>-th call.
  \<^item> \<open>h_munmap k a len\<close> tells whether the \<open>k\<close>-th call, \<open>munmap(a, len)\<close>, succeeds.
\<close>

record host =
  h_pagesize :: cint
  h_mmap :: "nat \<Rightarrow> size_t \<Rightarrow> addr"
  h_mprotect :: "nat \<Rightarrow> addr \<Rightarrow> size_t \<Rightarrow> bool"
  h_munmap :: "nat \<Rightarrow> addr \<Rightarrow> size_t \<Rightarrow> bool"
  calls :: nat
  writable :: "addr set"

definition MAP_FAILED :: addr where
  "MAP_FAILED = - 1"

text \<open>An address lies in the \<open>len\<close> bytes from \<open>a\<close> on (the difference is unsigned).\<close>

definition in_range :: "addr \<Rightarrow> size_t \<Rightarrow> addr \<Rightarrow> bool" where
  "in_range a len x = (x - a < len)"

text \<open>
  On Linux \<open>mprotect\<close> fails with \<open>EINVAL\<close> when the address is not a multiple of
  the system page size (mprotect(2)); otherwise the host decides.
\<close>

definition page_aligned :: "host \<Rightarrow> addr \<Rightarrow> bool" where
  "page_aligned h a = (a mod scast (h_pagesize h) = 0)"

definition sys_mmap :: "host \<Rightarrow> size_t \<Rightarrow> addr \<times> host" where
  "sys_mmap h len =
     (let a = h_mmap h (calls h) len in
      (a, h\<lparr>calls := Suc (calls h),
            writable := (if a = MAP_FAILED then writable h
                         else {x \<in> writable h. \<not> in_range a len x})\<rparr>))"

definition sys_mprotect_rw :: "host \<Rightarrow> addr \<Rightarrow> size_t \<Rightarrow> bool \<times> host" where
  "sys_mprotect_rw h pg len =
     (let ok = (page_aligned h pg \<and> h_mprotect h (calls h) pg len) in
      (ok, h\<lparr>calls := Suc (calls h),
             writable := (if ok then insert pg (writable h) else writable h)\<rparr>))"

definition sys_munmap :: "host \<Rightarrow> addr \<Rightarrow> size_t \<Rightarrow> bool \<times> host" where
  "sys_munmap h a len =
     (let ok = h_munmap h (calls h) a len in
      (ok, h\<lparr>calls := Suc (calls h),
             writable := (if ok then {x \<in> writable h. \<not> in_range a len x}
                          else writable h)\<rparr>))"

subsection \<open>The arena\<close>

record mem_pool =
  begin_gp :: addr
  end_gp :: addr
  allocation_area :: addr
  first_not_commited :: addr
  pages_mmaped :: size_t
  occupied_slots :: size_t
  free_slots_left :: size_t
  pagesize :: cint

text \<open>The state of \<open>mem_pool() = default\<close>: the member initialisers.\<close>

definition empty_pool :: mem_pool where
  "empty_pool = \<lparr>begin_gp = 0, end_gp = 0, allocation_area = 0, first_not_commited = 0,
     pages_mmaped = 0, occupied_slots = 0, free_slots_left = 0, pagesize = 0\<rparr>"

definition allocate_pgs :: size_t where
  "allocate_pgs = 10"

text \<open>\<open>pagesize\<close> converted to \<open>uint64_t\<close> / \<open>std::size_t\<close>: sign extension.\<close>

definition page :: "mem_pool \<Rightarrow> size_t" where
  "page p = scast (pagesize p)"

text \<open>\<open>allocation_area + occupied_slots\<close>, the address of the first free slot.\<close>

definition frontier :: "size_t \<Rightarrow> mem_pool \<Rightarrow> addr" where
  "frontier sz p = allocation_area p + occupied_slots p * sz"

definition owns :: "mem_pool \<Rightarrow> addr \<Rightarrow> bool" where
  "owns p val = (if val > allocation_area p \<and> val < begin_gp p then True else False)"

definition set_pagesize :: "host \<Rightarrow> mem_pool \<Rightarrow> cint \<times> mem_pool" where
  "set_pagesize h p = (h_pagesize h, p\<lparr>pagesize := h_pagesize h\<rparr>)"

definition commit_page :: "host \<Rightarrow> mem_pool \<Rightarrow> addr \<Rightarrow> bool \<times> host \<times> mem_pool" where
  "commit_page h p pg =
     (if pg < begin_gp p + page p \<or> pg > end_gp p then (False, h, p)
      else (case sys_mprotect_rw h pg (page p) of
              (ok, h') \<Rightarrow>
                if \<not> ok then (False, h', p)
                else (True, h', p\<lparr>first_not_commited := pg + page p\<rparr>)))"

text \<open>
  The loop of \<open>checked_range_commit\<close>. With a page size that is zero or negative,
  or a mapping that ends at the top of the address space, it need not
  terminate, so not returning is the value \<open>None\<close>.
\<close>

partial_function (option) commit_loop ::
  "host \<Rightarrow> mem_pool \<Rightarrow> addr \<Rightarrow> addr \<Rightarrow> (bool \<times> host \<times> mem_pool) option" where
  "commit_loop h p page_to_commit pg =
     (if page_to_commit < pg then
        (case commit_page h p page_to_commit of
           (retVal, h', p') \<Rightarrow>
             if \<not> retVal then Some (False, h', p')
             else commit_loop h' p' (page_to_commit + page p') pg)
      else Some (True, h, p))"

declare commit_loop.simps [code]

definition checked_range_commit ::
  "host \<Rightarrow> mem_pool \<Rightarrow> addr \<Rightarrow> (bool \<times> host \<times> mem_pool) option" where
  "checked_range_commit h p pg =
     (if pg > first_not_commited p then commit_loop h p (first_not_commited p) pg
      else Some (True, h, p))"

definition deinit_pool :: "host \<Rightarrow> mem_pool \<Rightarrow> bool \<times> host \<times> mem_pool" where
  "deinit_pool h p =
     (if begin_gp p = 0 then (False, h, p)
      else (case sys_munmap h (begin_gp p) (pages_mmaped p * page p) of
              (ok, h') \<Rightarrow>
                if ok then
                  (True, h', p\<lparr>allocation_area := 0, begin_gp := 0, end_gp := 0,
                               first_not_commited := 0, pages_mmaped := 0,
                               occupied_slots := 0, free_slots_left := 0\<rparr>)
                else (False, h', p)))"

text \<open>
  \<open>init_pool\<close>. In \<open>(pages_mmaped * pagesize) - (2 * pagesize)\<close> the product
  \<open>2 * pagesize\<close> is computed in \<open>int\<close> and then converted.
\<close>

definition init_pool ::
  "size_t \<Rightarrow> host \<Rightarrow> mem_pool \<Rightarrow> size_t \<Rightarrow> bool \<times> host \<times> mem_pool" where
  "init_pool sz h p0 pgs0 =
     (let p1 = (if pagesize p0 = 0 then snd (set_pagesize h p0) else p0) in
      if pagesize p0 = 0 \<and> fst (set_pagesize h p0) = - 1 then (False, h, p1)
      else if begin_gp p1 \<noteq> 0 then (False, h, p1)
      else
        let pgs = (if pgs0 = 0 then allocate_pgs else pgs0) in
        (case sys_mmap h (pgs * page p1) of
           (a, h1) \<Rightarrow>
             let p2 = p1\<lparr>begin_gp := a\<rparr> in
             if a = MAP_FAILED then (False, h1, p2)
             else
               let p3 = p2\<lparr>pages_mmaped := pgs\<rparr>;
                   p4 = p3\<lparr>allocation_area := begin_gp p3 + page p3\<rparr>;
                   p5 = p4\<lparr>end_gp := begin_gp p4 + ((pages_mmaped p4 - 1) * page p4)\<rparr>;
                   p6 = p5\<lparr>first_not_commited := allocation_area p5 + page p5\<rparr>;
                   p7 = p6\<lparr>occupied_slots := 0\<rparr>;
                   p8 = p7\<lparr>free_slots_left :=
                          ((pages_mmaped p7 * page p7) - scast (2 * pagesize p7)) div sz\<rparr>
               in (case commit_page h1 p8 (allocation_area p8) of
                     (ok, h2, p9) \<Rightarrow>
                       if \<not> ok then
                         (case deinit_pool h2 p9 of (_, h3, p10) \<Rightarrow> (False, h3, p10))
                       else (True, h2, p9))))"

text \<open>\<open>get_allocation\<close>: the returned pointer (0 is \<open>nullptr\<close>), the host and the arena.\<close>

definition get_allocation ::
  "size_t \<Rightarrow> host \<Rightarrow> mem_pool \<Rightarrow> size_t \<Rightarrow> (addr \<times> host \<times> mem_pool) option" where
  "get_allocation sz h p0 nmbr =
     (case (if begin_gp p0 = 0 then init_pool sz h p0 0 else (True, h, p0)) of
        (inited, h1, p) \<Rightarrow>
          if \<not> inited then Some (0, h1, p)
          else if free_slots_left p < nmbr then Some (0, h1, p)
          else
            let end_byte = (allocation_area p + occupied_slots p * sz + nmbr * sz) - 1 in
            (case checked_range_commit h1 p end_byte of
               None \<Rightarrow> None
             | Some (ok, h2, p') \<Rightarrow>
                 if \<not> ok then Some (0, h2, p')
                 else Some (allocation_area p' + occupied_slots p' * sz, h2,
                            p'\<lparr>occupied_slots := occupied_slots p' + nmbr,
                               free_slots_left := free_slots_left p' - nmbr\<rparr>)))"

definition extend_allocation ::
  "size_t \<Rightarrow> host \<Rightarrow> mem_pool \<Rightarrow> addr \<Rightarrow> size_t \<Rightarrow> size_t
     \<Rightarrow> (bool \<times> host \<times> mem_pool) option" where
  "extend_allocation sz h p ptr old_nmbr new_nmbr =
     (let allocate_nmbr = new_nmbr - old_nmbr in
      if ptr = 0 then Some (False, h, p)
      else if begin_gp p = 0 then Some (False, h, p)
      else if free_slots_left p < allocate_nmbr then Some (False, h, p)
      else if ptr + old_nmbr * sz \<noteq> allocation_area p + occupied_slots p * sz
        then Some (False, h, p)
      else
        let end_byte =
              (allocation_area p + occupied_slots p * sz + allocate_nmbr * sz) - 1 in
        (case checked_range_commit h p end_byte of
           None \<Rightarrow> None
         | Some (ok, h', p') \<Rightarrow>
             if \<not> ok then Some (False, h', p')
             else Some (True, h',
                        p'\<lparr>occupied_slots := occupied_slots p' + allocate_nmbr,
                           free_slots_left := free_slots_left p' - allocate_nmbr\<rparr>)))"

definition delete_allocation :: "mem_pool \<Rightarrow> addr \<Rightarrow> size_t \<Rightarrow> bool \<times> mem_pool" where
  "delete_allocation p ptr nmbr =
     (if ptr = 0 then (False, p)
      else if begin_gp p = 0 then (False, p)
      else (True, p\<lparr>occupied_slots := occupied_slots p - nmbr,
                     free_slots_left := free_slots_left p + nmbr\<rparr>))"

subsection \<open>The allocator facade\<close>







subsection \<open>Runs of the arena\<close>

text \<open>
  A caller that requests \<open>ns\<close> one after the other, collecting the returned
  pointers. The run has no value when a call does not return.
\<close>

fun alloc_seq ::
  "size_t \<Rightarrow> host \<Rightarrow> mem_pool \<Rightarrow> size_t list \<Rightarrow> (addr list \<times> host \<times> mem_pool) option" where
  "alloc_seq sz h p [] = Some ([], h, p)"
| "alloc_seq sz h p (n # ns) =
     (case get_allocation sz h p n of
        None \<Rightarrow> None
      | Some (q, h', p') \<Rightarrow>
          (case alloc_seq sz h' p' ns of
             None \<Rightarrow> None
           | Some (qs, h'', p'') \<Rightarrow> Some (q # qs, h'', p'')))"



subsection \<open>Initialised arenas\<close>

text \<open>
  The layout \<open>init_pool\<close> sets up, as far as the commit loop depends on it: the
  page size is positive and the trailing guard page ends below the top of
  the address space.
\<close>

definition layout_ok :: "mem_pool \<Rightarrow> bool" where
  "layout_ok p = (begin_gp p \<noteq> 0 \<and> 0 < unat (page p) \<and> unat (end_gp p) + unat (page p) < 2 ^ 64)"

text \<open>
  The invariant of an initialised arena on its host: the cached page size is the
  host's, the usable area starts one page after the mapping, the commit
  frontier is a page boundary inside the mapping, and the occupied and free
  slots together fit between the usable start and the trailing guard page.
\<close>

definition arena_inv :: "size_t \<Rightarrow> host \<Rightarrow> mem_pool \<Rightarrow> bool" where
  "arena_inv sz h p =
     (layout_ok p \<and> pagesize p = h_pagesize h
      \<and> unat (allocation_area p) = unat (begin_gp p) + unat (page p)
      \<and> unat (allocation_area p) \<le> unat (first_not_commited p)
      \<and> unat (first_not_commited p) mod unat (page p) = 0
      \<and> unat (allocation_area p)
          + (unat (occupied_slots p) + unat (free_slots_left p)) * unat sz \<le> unat (end_gp p))"

text \<open>A host that never runs out of resources when asked to change a protection.\<close>

definition host_grants :: "host \<Rightarrow> bool" where
  "host_grants h = (\<forall>k a len. h_mprotect h k a len)"

subsection \<open>A concrete host and arena\<close>

text \<open>
  A host with pages of 4096 bytes that places every mapping at \<open>0x10000\<close> and grants
  every request, one that refuses every change of protection, and the arena
  that \<open>init_pool\<close> builds on the former for 4 pages and 8-byte slots.
\<close>

definition linux_host :: host where
  "linux_host = \<lparr>h_pagesize = 4096, h_mmap = (\<lambda>k len. 0x10000),
     h_mprotect = (\<lambda>k a len. True), h_munmap = (\<lambda>k a len. True),
     calls = 0, writable = {}\<rparr>"

definition refusing_host :: host where
  "refusing_host = \<lparr>h_pagesize = 4096, h_mmap = (\<lambda>k len. 0x10000),
     h_mprotect = (\<lambda>k a len. False), h_munmap = (\<lambda>k a len. True),
     calls = 2, writable = {0x11000}\<rparr>"

definition arena4 :: mem_pool where
  "arena4 = \<lparr>begin_gp = 0x10000, end_gp = 0x13000, allocation_area = 0x11000,
     first_not_commited = 0x12000, pages_mmaped = 4, occupied_slots = 0,
     free_slots_left = 1024, pagesize = 4096\<rparr>"

definition host4 :: host where
  "host4 = linux_host\<lparr>calls := 2, writable := {0x11000}\<rparr>"

text \<open>
  The same arena after \<open>get_allocation(10)\<close>, after a further \<open>get_allocation(3)\<close>,
  and after \<open>get_allocation(600)\<close> on the fresh arena, which commits the second
  page of the usable area; the host after that commit.
\<close>

definition arena10 :: mem_pool where
  "arena10 = arena4\<lparr>occupied_slots := 10, free_slots_left := 1014\<rparr>"

definition arena13 :: mem_pool where
  "arena13 = arena4\<lparr>occupied_slots := 13, free_slots_left := 1011\<rparr>"

definition arena600 :: mem_pool where
  "arena600 = arena4\<lparr>first_not_commited := 0x13000, occupied_slots := 600,
     free_slots_left := 424\<rparr>"

definition host4b :: host where
  "host4b = host4\<lparr>calls := 3, writable := {0x12000, 0x11000}\<rparr>"


section \<open>Properties of the arena\<close>

subsection \<open>Committing pages\<close>

text \<open>The definitions that a run on the concrete host and arena unfolds.\<close>

lemmas eval_defs = get_allocation_def extend_allocation_def init_pool_def commit_page_def
  set_pagesize_def allocate_pgs_def page_def deinit_pool_def checked_range_commit_def
  sys_mmap_def sys_mprotect_rw_def sys_munmap_def page_aligned_def in_range_def MAP_FAILED_def
  linux_host_def host4_def arena4_def empty_pool_def refusing_host_def frontier_def Let_def
  arena10_def arena13_def arena600_def host4b_def

text \<open>The induction rule of the commit loop, with the run as its major premise.\<close>


lemmas commit_loop_induct = commit_loop.raw_induct [rotated 1, consumes 1, case_names step]

lemma commit_page_pool:
  "commit_page h p pg = (ok, h', p') \<Longrightarrow>
     begin_gp p' = begin_gp p \<and> end_gp p' = end_gp p \<and> allocation_area p' = allocation_area p
     \<and> pages_mmaped p' = pages_mmaped p \<and> occupied_slots p' = occupied_slots p
     \<and> free_slots_left p' = free_slots_left p \<and> pagesize p' = pagesize p"
  by (auto simp: commit_page_def sys_mprotect_rw_def Let_def split: if_splits)

lemma commit_page_host:
  "commit_page h p pg = (ok, h', p') \<Longrightarrow>
     h_pagesize h' = h_pagesize h \<and> h_mprotect h' = h_mprotect h \<and> h_mmap h' = h_mmap h
     \<and> h_munmap h' = h_munmap h \<and> writable h \<subseteq> writable h'"
  by (auto simp: commit_page_def sys_mprotect_rw_def Let_def split: if_splits)

lemma commit_page_failed:
  "commit_page h p pg = (False, h', p') \<Longrightarrow> p' = p \<and> writable h' = writable h"
  by (auto simp: commit_page_def sys_mprotect_rw_def Let_def split: if_splits)

lemma commit_page_ok:
  "commit_page h p pg = (True, h', p') \<Longrightarrow>
     p' = p\<lparr>first_not_commited := pg + page p\<rparr> \<and> begin_gp p + page p \<le> pg \<and> pg \<le> end_gp p
     \<and> writable h' = insert pg (writable h)"
  by (auto simp: commit_page_def sys_mprotect_rw_def Let_def split: if_splits)

lemma page_cong: "pagesize p' = pagesize p \<Longrightarrow> page p' = page p"
  by (simp add: page_def)

lemma commit_loop_pool:
  "commit_loop h p x pg = Some r \<Longrightarrow>
     begin_gp (snd (snd r)) = begin_gp p \<and> end_gp (snd (snd r)) = end_gp p
     \<and> allocation_area (snd (snd r)) = allocation_area p
     \<and> pages_mmaped (snd (snd r)) = pages_mmaped p
     \<and> occupied_slots (snd (snd r)) = occupied_slots p
     \<and> free_slots_left (snd (snd r)) = free_slots_left p
     \<and> pagesize (snd (snd r)) = pagesize p"
proof (induction h p x pg r rule: commit_loop_induct)
  case (step f h p x pg r)
  show ?case
  proof (cases "x < pg")
    case False
    with step(2) show ?thesis by auto
  next
    case True
    obtain ok h1 p1 where cp: "commit_page h p x = (ok, h1, p1)"
      by (cases "commit_page h p x") auto
    note p1 = commit_page_pool [OF cp]
    show ?thesis
    proof (cases ok)
      case False
      with step(2) True cp p1 show ?thesis by auto
    next
      case ok: True
      with step(2) True cp have "f h1 p1 (x + page p1) pg = Some r" by simp
      from step(1) [OF this] p1 show ?thesis by simp
    qed
  qed
qed

lemma commit_loop_host:
  "commit_loop h p x pg = Some r \<Longrightarrow>
     h_pagesize (fst (snd r)) = h_pagesize h \<and> h_mprotect (fst (snd r)) = h_mprotect h
     \<and> h_mmap (fst (snd r)) = h_mmap h \<and> h_munmap (fst (snd r)) = h_munmap h
     \<and> writable h \<subseteq> writable (fst (snd r))"
proof (induction h p x pg r rule: commit_loop_induct)
  case (step f h p x pg r)
  show ?case
  proof (cases "x < pg")
    case False
    with step(2) show ?thesis by auto
  next
    case True
    obtain ok h1 p1 where cp: "commit_page h p x = (ok, h1, p1)"
      by (cases "commit_page h p x") auto
    note h1 = commit_page_host [OF cp]
    show ?thesis
    proof (cases ok)
      case False
      with step(2) True cp h1 show ?thesis by auto
    next
      case ok: True
      with step(2) True cp have "f h1 p1 (x + page p1) pg = Some r" by simp
      from step(1) [OF this] h1 show ?thesis by auto
    qed
  qed
qed

text \<open>
  Below the trailing guard page, adding one page to an address does not wrap.
\<close>

lemma step_no_wrap:
  fixes x :: addr
  assumes "x \<le> e" and "unat e + unat w < 2 ^ 64"
  shows "unat (x + w) = unat x + unat w"
proof -
  have "unat x \<le> unat e" using assms(1) by (simp add: word_le_nat_alt)
  with assms(2) have "unat x + unat w < 2 ^ 64" by simp
  then show ?thesis by (simp add: unat_add_lem [THEN iffD1])
qed

lemma commit_loop_frontier:
  "commit_loop h p x pg = Some r \<Longrightarrow> unat (end_gp p) + unat (page p) < 2 ^ 64 \<Longrightarrow>
     first_not_commited p \<le> x \<Longrightarrow>
     first_not_commited p \<le> first_not_commited (snd (snd r))"
proof (induction h p x pg r rule: commit_loop_induct)
  case (step f h p x pg r)
  show ?case
  proof (cases "x < pg")
    case False
    with step(2) show ?thesis by auto
  next
    case True
    obtain ok h1 p1 where cp: "commit_page h p x = (ok, h1, p1)"
      by (cases "commit_page h p x") auto
    show ?thesis
    proof (cases ok)
      case False
      with step(2) True cp commit_page_failed [of h p x h1 p1] show ?thesis by auto
    next
      case ok: True
      from cp ok have cpT: "commit_page h p x = (True, h1, p1)" by simp
      note c = commit_page_ok [OF cpT]
      have pg1: "page p1 = page p" using c by (simp add: page_def)
      from step(2) True cp ok have l: "f h1 p1 (x + page p1) pg = Some r" by simp
      have nw: "unat (x + page p) = unat x + unat (page p)"
        using c step.prems(1) by (intro step_no_wrap [of x "end_gp p"]) auto
      have le1: "first_not_commited p \<le> first_not_commited p1"
        using c nw step.prems(2) by (simp add: word_le_nat_alt)
      have "first_not_commited p1 \<le> first_not_commited (snd (snd r))"
        using c pg1 step.prems(1) by (intro step(1) [OF l]) auto
      with le1 show ?thesis by simp
    qed
  qed
qed


subsection \<open>The range commit and the bump allocation\<close>

lemma crc_pool:
  assumes "checked_range_commit h p pg = Some (ok, h', p')"
  shows "begin_gp p' = begin_gp p \<and> end_gp p' = end_gp p
     \<and> allocation_area p' = allocation_area p \<and> pages_mmaped p' = pages_mmaped p
     \<and> occupied_slots p' = occupied_slots p \<and> free_slots_left p' = free_slots_left p
     \<and> pagesize p' = pagesize p"
proof (cases "pg > first_not_commited p")
  case True
  with assms have "commit_loop h p (first_not_commited p) pg = Some (ok, h', p')"
    by (simp add: checked_range_commit_def)
  from commit_loop_pool [OF this] show ?thesis by simp
next
  case False
  with assms show ?thesis by (simp add: checked_range_commit_def)
qed

lemma crc_host:
  assumes "checked_range_commit h p pg = Some (ok, h', p')"
  shows "h_pagesize h' = h_pagesize h \<and> h_mprotect h' = h_mprotect h \<and> h_mmap h' = h_mmap h
     \<and> h_munmap h' = h_munmap h \<and> writable h \<subseteq> writable h'"
proof (cases "pg > first_not_commited p")
  case True
  with assms have "commit_loop h p (first_not_commited p) pg = Some (ok, h', p')"
    by (simp add: checked_range_commit_def)
  from commit_loop_host [OF this] show ?thesis by simp
next
  case False
  with assms show ?thesis by (simp add: checked_range_commit_def)
qed

lemma crc_frontier:
  assumes "checked_range_commit h p pg = Some (ok, h', p')"
    and "unat (end_gp p) + unat (page p) < 2 ^ 64"
  shows "first_not_commited p \<le> first_not_commited p'"
proof (cases "pg > first_not_commited p")
  case True
  with assms have "commit_loop h p (first_not_commited p) pg = Some (ok, h', p')"
    by (simp add: checked_range_commit_def)
  from commit_loop_frontier [OF this assms(2)] show ?thesis by simp
next
  case False
  with assms show ?thesis by (simp add: checked_range_commit_def)
qed



lemma get_allocation_exhausted:
  "begin_gp p \<noteq> 0 \<Longrightarrow> free_slots_left p < n \<Longrightarrow> get_allocation sz h p n = Some (0, h, p)"
  by (simp add: get_allocation_def)

lemma get_allocation_cases:
  assumes "begin_gp p \<noteq> 0" and "get_allocation sz h p n = Some (q, h', p')"
  shows "(q = 0 \<and> occupied_slots p' = occupied_slots p \<and> free_slots_left p' = free_slots_left p)
       \<or> (q = frontier sz p \<and> \<not> free_slots_left p < n
           \<and> occupied_slots p' = occupied_slots p + n
           \<and> free_slots_left p' = free_slots_left p - n)"
proof (cases "free_slots_left p < n")
  case True
  with assms show ?thesis by (simp add: get_allocation_def)
next
  case False
  let ?e = "allocation_area p + occupied_slots p * sz + n * sz - 1"
  from assms False obtain ok h2 p2 where c: "checked_range_commit h p ?e = Some (ok, h2, p2)"
    by (cases "checked_range_commit h p ?e") (auto simp: get_allocation_def Let_def)
  note f = crc_pool [OF c]
  show ?thesis
  proof (cases ok)
    case True
    with assms False c f show ?thesis by (auto simp: get_allocation_def Let_def frontier_def)
  next
    case False
    with assms \<open>\<not> free_slots_left p < n\<close> c f show ?thesis
      by (auto simp: get_allocation_def Let_def)
  qed
qed

lemma get_allocation_frame:
  assumes "begin_gp p \<noteq> 0" and "get_allocation sz h p n = Some (q, h', p')"
  shows "begin_gp p' = begin_gp p \<and> end_gp p' = end_gp p
     \<and> allocation_area p' = allocation_area p \<and> pages_mmaped p' = pages_mmaped p
     \<and> pagesize p' = pagesize p"
proof (cases "free_slots_left p < n")
  case True
  with assms show ?thesis by (simp add: get_allocation_def)
next
  case False
  let ?e = "allocation_area p + occupied_slots p * sz + n * sz - 1"
  from assms False obtain ok h2 p2 where c: "checked_range_commit h p ?e = Some (ok, h2, p2)"
    by (cases "checked_range_commit h p ?e") (auto simp: get_allocation_def Let_def)
  note f = crc_pool [OF c]
  from assms False c f show ?thesis
    by (cases ok) (auto simp: get_allocation_def Let_def)
qed

lemma get_allocation_success:
  assumes "begin_gp p \<noteq> 0" and "get_allocation sz h p n = Some (q, h', p')" and "q \<noteq> 0"
  shows "q = frontier sz p \<and> frontier sz p' = frontier sz p + n * sz \<and> begin_gp p' \<noteq> 0
     \<and> \<not> free_slots_left p < n"
  using get_allocation_cases [OF assms(1,2)] get_allocation_frame [OF assms(1,2)] assms(1,3)
  by (auto simp: frontier_def algebra_simps)

lemma get_allocation_null:
  assumes "begin_gp p \<noteq> 0" and "frontier sz p \<noteq> 0"
    and "get_allocation sz h p n = Some (0, h', p')"
  shows "occupied_slots p' = occupied_slots p \<and> free_slots_left p' = free_slots_left p"
  using get_allocation_cases [OF assms(1,3)] assms(2) by auto

subsection \<open>Initialisation\<close>

text \<open>
  Doubling the page size in \<open>int\<close> and converting gives twice the converted page
  size, when the product does not overflow (the overflow is undefined in C++).
\<close>

lemma scast_double:
  fixes x :: cint
  assumes "- (2 ^ 30) \<le> sint x" and "sint x < 2 ^ 30"
  shows "(scast (2 * x) :: size_t) = 2 * scast x"
proof -
  have "sint (2 * x) = signed_take_bit (LENGTH(32) - 1) (sint (2 :: cint) * sint x)"
    by (rule sint_word_mult)
  also have "\<dots> = signed_take_bit 31 (2 * sint x)" by simp
  also have "\<dots> = 2 * sint x"
    using assms by (intro signed_take_bit_int_eq_self) auto
  finally have s: "sint (2 * x) = 2 * sint x" .
  have "(scast (2 * x) :: size_t) = word_of_int (sint (2 * x))"
    by (rule scast_eq)
  also have "\<dots> = word_of_int (2 * sint x)" by (simp only: s)
  also have "\<dots> = 2 * word_of_int (sint x)" by (simp only: of_int_mult of_int_numeral)
  also have "\<dots> = 2 * scast x" by (simp only: scast_eq)
  finally show ?thesis .
qed

lemma commit_page_aligned:
  "commit_page h p pg = (True, h', p') \<Longrightarrow> page_aligned h pg"
  by (auto simp: commit_page_def sys_mprotect_rw_def Let_def split: if_splits)

lemma init_pool_success:
  assumes "init_pool sz h p req = (True, h', p')"
  shows "pagesize p' = (if pagesize p = 0 then h_pagesize h else pagesize p)
       \<and> pages_mmaped p' = (if req = 0 then 10 else req)
       \<and> begin_gp p' = h_mmap h (calls h) (pages_mmaped p' * page p')
       \<and> begin_gp p' \<noteq> MAP_FAILED
       \<and> allocation_area p' = begin_gp p' + page p'
       \<and> end_gp p' = begin_gp p' + (pages_mmaped p' - 1) * page p'
       \<and> first_not_commited p' = allocation_area p' + page p'
       \<and> occupied_slots p' = 0
       \<and> free_slots_left p' = (pages_mmaped p' * page p' - scast (2 * pagesize p')) div sz
       \<and> allocation_area p' \<le> end_gp p'
       \<and> page_aligned h (allocation_area p')"
proof -
  define p1 where "p1 = (if pagesize p = 0 then p\<lparr>pagesize := h_pagesize h\<rparr> else p)"
  define pgs where "pgs = (if req = 0 then (10 :: size_t) else req)"
  define a where "a = h_mmap h (calls h) (pgs * page p1)"
  define h1 where "h1 = snd (sys_mmap h (pgs * page p1))"
  define p8 where "p8 = p1\<lparr>begin_gp := a, pages_mmaped := pgs, allocation_area := a + page p1,
     end_gp := a + (pgs - 1) * page p1, first_not_commited := a + page p1 + page p1,
     occupied_slots := 0,
     free_slots_left := (pgs * page p1 - scast (2 * pagesize p1)) div sz\<rparr>"
  have pg8: "page p8 = page p1" by (simp add: p8_def page_def)
  have c: "commit_page h1 p8 (a + page p1) = (True, h', p')" and am: "a \<noteq> MAP_FAILED"
    using assms
    by (auto simp: init_pool_def set_pagesize_def allocate_pgs_def sys_mmap_def Let_def
        p1_def pgs_def a_def h1_def p8_def page_def
        split: if_splits prod.splits)
  have ps1: "pagesize p1 = (if pagesize p = 0 then h_pagesize h else pagesize p)"
    by (simp add: p1_def)
  from commit_page_ok [OF c] have p': "p' = p8\<lparr>first_not_commited := a + page p1 + page p8\<rparr>"
    and le: "a + page p1 \<le> end_gp p8" by simp_all
  have al: "page_aligned h (a + page p1)"
    using commit_page_aligned [OF c] by (simp add: h1_def sys_mmap_def page_aligned_def Let_def)
  show ?thesis
    using p' le al am ps1 pg8
    by (simp add: p8_def page_def a_def pgs_def)
qed

text \<open>
  The capacity that a successful \<open>init_pool\<close> leaves: in 64-bit arithmetic, and in
  the natural numbers when the mapping lies inside the address space.
\<close>

lemma init_pool_capacity:
  assumes "init_pool sz h p req = (True, h', p')"
    and "- (2 ^ 30) \<le> sint (pagesize p')" and "sint (pagesize p') < 2 ^ 30"
  shows "pages_mmaped p' = (if req = 0 then 10 else req)
       \<and> free_slots_left p' = ((pages_mmaped p' - 2) * page p') div sz
       \<and> (unat (begin_gp p') + unat (pages_mmaped p') * unat (page p') < 2 ^ 64
            \<and> 0 < unat (page p')
          \<longrightarrow> 2 \<le> unat (pages_mmaped p')
              \<and> unat (free_slots_left p')
                  = ((unat (pages_mmaped p') - 2) * unat (page p')) div unat sz)"
proof -
  note i = init_pool_success [OF assms(1)]
  let ?n = "pages_mmaped p'" and ?P = "page p'" and ?b = "begin_gp p'"
  have d: "(scast (2 * pagesize p') :: size_t) = 2 * ?P"
    using scast_double [OF assms(2,3)] by (simp add: page_def)
  have w: "free_slots_left p' = ((?n - 2) * ?P) div sz"
    using i d by (simp add: algebra_simps)
  have n: "2 \<le> unat ?n \<and> unat (free_slots_left p') = ((unat ?n - 2) * unat ?P) div unat sz"
    if nw: "unat ?b + unat ?n * unat ?P < 2 ^ 64" and pos: "0 < unat ?P"
  proof -
    have n0: "?n \<noteq> 0" using i by auto
    then have n1: "1 \<le> unat ?n" by (simp add: unat_gt_0 Suc_le_eq)
    have two: "2 \<le> unat ?n"
    proof (rule ccontr)
      assume "\<not> 2 \<le> unat ?n"
      with n1 have "unat ?n = 1" by simp
      then have n_one: "?n = 1" by (metis unat_1 word_unat_eq_iff)
      have "end_gp p' = ?b + (?n - 1) * ?P" using i by blast
      with n_one have e: "end_gp p' = ?b" by simp
      have a1: "allocation_area p' = ?b + ?P" and a2: "allocation_area p' \<le> end_gp p'"
        using i by blast+
      have "unat (?b + ?P) = unat ?b + unat ?P"
        using nw \<open>unat ?n = 1\<close> by (simp add: unat_add_lem [THEN iffD1])
      then have "?b < ?b + ?P" using pos by (simp add: word_less_nat_alt)
      with a1 a2 e show False by simp
    qed
    have s2: "unat (?n - 2) = unat ?n - 2"
      using two by (simp add: unat_sub word_le_nat_alt)
    have "(unat ?n - 2) * unat ?P \<le> unat ?n * unat ?P"
      by (rule mult_le_mono1) simp
    also have "\<dots> < 2 ^ 64" using nw by linarith
    finally have "unat (?n - 2) * unat ?P < 2 ^ 64" using s2 by simp
    then have "unat ((?n - 2) * ?P) = unat (?n - 2) * unat ?P"
      by (simp add: unat_mult_lem [THEN iffD1])
    with w s2 have "unat (free_slots_left p') = ((unat ?n - 2) * unat ?P) div unat sz"
      by (simp add: unat_div)
    with two show ?thesis by simp
  qed
  from i w n show ?thesis by simp
qed

lemma init_pool_success_host:
  assumes "init_pool sz h p req = (True, h', p')"
  shows "h_pagesize h' = h_pagesize h \<and> h_mprotect h' = h_mprotect h \<and> h_mmap h' = h_mmap h
     \<and> h_munmap h' = h_munmap h"
proof -
  define p1 where "p1 = (if pagesize p = 0 then p\<lparr>pagesize := h_pagesize h\<rparr> else p)"
  define pgs where "pgs = (if req = 0 then (10 :: size_t) else req)"
  define a where "a = h_mmap h (calls h) (pgs * page p1)"
  define h1 where "h1 = snd (sys_mmap h (pgs * page p1))"
  define p8 where "p8 = p1\<lparr>begin_gp := a, pages_mmaped := pgs, allocation_area := a + page p1,
     end_gp := a + (pgs - 1) * page p1, first_not_commited := a + page p1 + page p1,
     occupied_slots := 0,
     free_slots_left := (pgs * page p1 - scast (2 * pagesize p1)) div sz\<rparr>"
  have c: "commit_page h1 p8 (a + page p1) = (True, h', p')"
    using assms
    by (auto simp: init_pool_def set_pagesize_def allocate_pgs_def sys_mmap_def Let_def
        p1_def pgs_def a_def h1_def p8_def page_def
        split: if_splits prod.splits)
  from commit_page_host [OF c] show ?thesis by (simp add: h1_def sys_mmap_def Let_def)
qed

subsection \<open>One step of the arena\<close>




lemma extend_allocation_result:
  assumes "extend_allocation sz h p ptr old_nmbr new_nmbr = Some (ok, h', p')"
  shows "(\<not> ok \<and> h' = h \<and> p' = p)
       \<or> (\<exists>p2 r. checked_range_commit h p
                   (allocation_area p + occupied_slots p * sz + (new_nmbr - old_nmbr) * sz - 1)
                 = Some (r, h', p2)
              \<and> ok = r \<and> ptr \<noteq> 0 \<and> begin_gp p \<noteq> 0
              \<and> \<not> free_slots_left p < new_nmbr - old_nmbr
              \<and> ptr + old_nmbr * sz = frontier sz p
              \<and> p' = (if r then p2\<lparr>occupied_slots := occupied_slots p2 + (new_nmbr - old_nmbr),
                          free_slots_left := free_slots_left p2 - (new_nmbr - old_nmbr)\<rparr>
                       else p2))"
proof (cases "ptr = 0 \<or> begin_gp p = 0 \<or> free_slots_left p < new_nmbr - old_nmbr
    \<or> ptr + old_nmbr * sz \<noteq> frontier sz p")
  case True
  then have "extend_allocation sz h p ptr old_nmbr new_nmbr = Some (False, h, p)"
    by (auto simp: extend_allocation_def Let_def frontier_def)
  with assms show ?thesis by simp
next
  case False
  let ?e = "allocation_area p + occupied_slots p * sz + (new_nmbr - old_nmbr) * sz - 1"
  from False have e: "extend_allocation sz h p ptr old_nmbr new_nmbr =
      (case checked_range_commit h p ?e of
         None \<Rightarrow> None
       | Some (ok, h', p') \<Rightarrow>
           if \<not> ok then Some (False, h', p')
           else Some (True, h',
                  p'\<lparr>occupied_slots := occupied_slots p' + (new_nmbr - old_nmbr),
                     free_slots_left := free_slots_left p' - (new_nmbr - old_nmbr)\<rparr>))"
    by (simp add: extend_allocation_def Let_def frontier_def)
  with assms obtain r h2 p2 where c: "checked_range_commit h p ?e = Some (r, h2, p2)"
    by (cases "checked_range_commit h p ?e") auto
  from assms e c have "ok = r \<and> h' = h2
      \<and> p' = (if r then p2\<lparr>occupied_slots := occupied_slots p2 + (new_nmbr - old_nmbr),
                          free_slots_left := free_slots_left p2 - (new_nmbr - old_nmbr)\<rparr>
               else p2)"
    by (cases r) simp_all
  with c False show ?thesis by blast
qed

lemma get_allocation_result:
  assumes "begin_gp p \<noteq> 0" and "get_allocation sz h p n = Some (q, h', p')"
  shows "(q = 0 \<and> h' = h \<and> p' = p)
       \<or> (\<exists>p2 r. checked_range_commit h p
                   (allocation_area p + occupied_slots p * sz + n * sz - 1)
                 = Some (r, h', p2)
              \<and> \<not> free_slots_left p < n
              \<and> q = (if r then frontier sz p2 else 0)
              \<and> p' = (if r then p2\<lparr>occupied_slots := occupied_slots p2 + n,
                          free_slots_left := free_slots_left p2 - n\<rparr>
                       else p2))"
proof (cases "free_slots_left p < n")
  case True
  with assms show ?thesis by (simp add: get_allocation_def)
next
  case False
  let ?e = "allocation_area p + occupied_slots p * sz + n * sz - 1"
  from False assms(1) have e: "get_allocation sz h p n =
      (case checked_range_commit h p ?e of
         None \<Rightarrow> None
       | Some (ok, h2, p') \<Rightarrow>
           if \<not> ok then Some (0, h2, p')
           else Some (allocation_area p' + occupied_slots p' * sz, h2,
                  p'\<lparr>occupied_slots := occupied_slots p' + n,
                     free_slots_left := free_slots_left p' - n\<rparr>))"
    by (simp add: get_allocation_def Let_def)
  with assms(2) obtain r h2 p2 where c: "checked_range_commit h p ?e = Some (r, h2, p2)"
    by (cases "checked_range_commit h p ?e") auto
  from assms(2) e c have "h' = h2 \<and> q = (if r then frontier sz p2 else 0)
      \<and> p' = (if r then p2\<lparr>occupied_slots := occupied_slots p2 + n,
                          free_slots_left := free_slots_left p2 - n\<rparr>
               else p2)"
    by (cases r) (simp_all add: frontier_def)
  with c False show ?thesis by blast
qed



subsection \<open>Commits that succeed\<close>

lemma page_aligned_unat:
  "page_aligned h x \<longleftrightarrow> unat x mod unat (scast (h_pagesize h) :: size_t) = 0"
  by (simp add: page_aligned_def word_unat_eq_iff unat_mod)

lemma commit_loop_succeeds:
  assumes "host_grants h" and "pagesize p = h_pagesize h" and "0 < unat (page p)"
    and "unat (end_gp p) + unat (page p) < 2 ^ 64"
    and "begin_gp p + page p \<le> x" and "unat x mod unat (page p) = 0" and "pg \<le> end_gp p"
  shows "\<exists>h' p'. commit_loop h p x pg = Some (True, h', p')"
  using assms
proof (induction "2 ^ 64 - unat x" arbitrary: h p x rule: less_induct)
  case less
  show ?case
  proof (cases "x < pg")
    case False
    then show ?thesis by (subst commit_loop.simps) simp
  next
    case True
    have al: "page_aligned h x"
      using less.prems(2,6) by (simp add: page_aligned_unat page_def)
    have gr: "h_mprotect h (calls h) x (page p)"
      using less.prems(1) by (simp add: host_grants_def)
    have xe: "x \<le> end_gp p" using True less.prems(7) by simp
    define h1 where "h1 = h\<lparr>calls := Suc (calls h), writable := insert x (writable h)\<rparr>"
    define p1 where "p1 = p\<lparr>first_not_commited := x + page p\<rparr>"
    have cp: "commit_page h p x = (True, h1, p1)"
      using al gr xe less.prems(5)
      by (simp add: commit_page_def sys_mprotect_rw_def Let_def h1_def p1_def not_less [symmetric])
    have pg1: "page p1 = page p" "end_gp p1 = end_gp p" "begin_gp p1 = begin_gp p"
      "pagesize p1 = h_pagesize h1"
      using less.prems(2) by (simp_all add: page_def p1_def h1_def)
    have nw: "unat (x + page p) = unat x + unat (page p)"
      using xe less.prems(4) by (rule step_no_wrap)
    have "unat (x + page p) < 2 ^ 64" using unsigned_less [of "x + page p"] by simp
    with nw less.prems(3) have m: "2 ^ 64 - unat (x + page p) < 2 ^ 64 - unat x" by simp
    have "\<exists>h' p'. commit_loop h1 p1 (x + page p) pg = Some (True, h', p')"
    proof (rule less.hyps [OF m])
      show "host_grants h1" using less.prems(1) by (simp add: host_grants_def h1_def)
      show "pagesize p1 = h_pagesize h1" by (rule pg1)
      show "0 < unat (page p1)" using less.prems(3) pg1 by simp
      show "unat (end_gp p1) + unat (page p1) < 2 ^ 64" using less.prems(4) pg1 by simp
      show "begin_gp p1 + page p1 \<le> x + page p"
        using less.prems(5) nw pg1 by (simp add: word_le_nat_alt)
      show "unat (x + page p) mod unat (page p1) = 0"
        using nw less.prems(6) pg1 by simp
      show "pg \<le> end_gp p1" using less.prems(7) pg1 by simp
    qed
    with True cp pg1 show ?thesis by (subst commit_loop.simps) simp
  qed
qed

lemma arena_inv_area: "arena_inv sz h p \<Longrightarrow> allocation_area p = begin_gp p + page p"
proof -
  assume a: "arena_inv sz h p"
  then have u: "unat (allocation_area p) = unat (begin_gp p) + unat (page p)"
    by (simp add: arena_inv_def)
  have "unat (allocation_area p) < 2 ^ 64" using unsigned_less [of "allocation_area p"] by simp
  with u have "unat (begin_gp p + page p) = unat (begin_gp p) + unat (page p)"
    by (simp add: unat_add_lem [THEN iffD1])
  with u show ?thesis by (simp add: word_unat_eq_iff)
qed

lemma crc_succeeds:
  assumes "arena_inv sz h p" and "host_grants h" and "pg \<le> end_gp p"
  shows "\<exists>h' p'. checked_range_commit h p pg = Some (True, h', p')"
proof (cases "pg > first_not_commited p")
  case False
  then show ?thesis by (simp add: checked_range_commit_def)
next
  case True
  have "\<exists>h' p'. commit_loop h p (first_not_commited p) pg = Some (True, h', p')"
  proof (rule commit_loop_succeeds [OF assms(2) _ _ _ _ _ assms(3)])
    show "pagesize p = h_pagesize h" using assms(1) by (simp add: arena_inv_def)
    show "0 < unat (page p)" using assms(1) by (simp add: arena_inv_def layout_ok_def)
    show "unat (end_gp p) + unat (page p) < 2 ^ 64"
      using assms(1) by (simp add: arena_inv_def layout_ok_def)
    show "begin_gp p + page p \<le> first_not_commited p"
      using assms(1) arena_inv_area [OF assms(1)] by (simp add: arena_inv_def word_le_nat_alt)
    show "unat (first_not_commited p) mod unat (page p) = 0"
      using assms(1) by (simp add: arena_inv_def)
  qed
  with True show ?thesis by (simp add: checked_range_commit_def)
qed

text \<open>The last byte of a block that fits into the free slots lies below the trailing guard page.\<close>

lemma end_byte_below_guard:
  assumes "arena_inv sz h p" and "\<not> free_slots_left p < d"
  shows "allocation_area p + occupied_slots p * sz + d * sz - 1 \<le> end_gp p"
proof -
  let ?A = "unat (allocation_area p)" and ?O = "unat (occupied_slots p)"
  let ?F = "unat (free_slots_left p)" and ?S = "unat sz" and ?D = "unat d"
  let ?E = "unat (end_gp p)"
  have cap: "?A + (?O + ?F) * ?S \<le> ?E" and A1: "1 \<le> ?A"
    using assms(1) by (simp_all add: arena_inv_def layout_ok_def)
  have E: "?E < 2 ^ 64" using unsigned_less [of "end_gp p"] by simp
  have D: "?D \<le> ?F" using assms(2) by (simp add: word_less_nat_alt)
  have "?O * ?S \<le> (?O + ?F) * ?S" by (rule mult_le_mono1) simp
  with cap E have OS: "?O * ?S < 2 ^ 64" by linarith
  have "?D * ?S \<le> (?O + ?F) * ?S" using D by (intro mult_le_mono1) simp
  with cap E have DS: "?D * ?S < 2 ^ 64" by linarith
  have "?O * ?S + ?D * ?S \<le> (?O + ?F) * ?S"
    using D by (simp add: add_mult_distrib)
  with cap have sum: "?A + ?O * ?S + ?D * ?S \<le> ?E" by linarith
  have u1: "unat (occupied_slots p * sz) = ?O * ?S"
    using OS by (simp add: unat_mult_lem [THEN iffD1])
  have u2: "unat (d * sz) = ?D * ?S"
    using DS by (simp add: unat_mult_lem [THEN iffD1])
  have u3: "unat (allocation_area p + occupied_slots p * sz) = ?A + ?O * ?S"
    using sum E u1 by (simp add: unat_add_lem [THEN iffD1])
  have u4: "unat (allocation_area p + occupied_slots p * sz + d * sz) = ?A + ?O * ?S + ?D * ?S"
    using sum E u2 u3 by (simp add: unat_add_lem [THEN iffD1])
  have "1 \<le> allocation_area p + occupied_slots p * sz + d * sz"
    using u4 A1 by (simp add: word_le_nat_alt)
  then have "unat (allocation_area p + occupied_slots p * sz + d * sz - 1)
      = ?A + ?O * ?S + ?D * ?S - 1"
    using u4 by (simp add: unat_sub)
  with sum show ?thesis by (simp add: word_le_nat_alt)
qed


lemma get_allocation_succeeds:
  assumes "arena_inv sz h p" and "host_grants h" and "\<not> free_slots_left p < n"
  shows "\<exists>h' p'. get_allocation sz h p n = Some (frontier sz p, h', p')"
proof -
  let ?e = "allocation_area p + occupied_slots p * sz + n * sz - 1"
  have b: "begin_gp p \<noteq> 0" using assms(1) by (simp add: arena_inv_def layout_ok_def)
  from crc_succeeds [OF assms(1,2) end_byte_below_guard [OF assms(1,3)]]
  obtain h' p2 where c: "checked_range_commit h p ?e = Some (True, h', p2)" by blast
  from crc_pool [OF c] c assms(3) b show ?thesis
    by (simp add: get_allocation_def Let_def frontier_def)
qed

subsection \<open>Lemmas on the extension\<close>





lemma extend_after_intervening_allocation:
  assumes "begin_gp p \<noteq> 0" and "get_allocation sz h p a = Some (ptr, h1, p1)" and "ptr \<noteq> 0"
    and "get_allocation sz h1 p1 n = Some (q, h2, p2)" and "q \<noteq> 0"
    and "n \<noteq> 0" and "sz \<noteq> 0" and "unat (free_slots_left p1) * unat sz < 2 ^ 64"
  shows "extend_allocation sz h2 p2 ptr a (a + b) = Some (False, h2, p2)"
proof -
  note s1 = get_allocation_success [OF assms(1,2,3)]
  then have b1: "begin_gp p1 \<noteq> 0" by simp
  note s2 = get_allocation_success [OF b1 assms(4,5)]
  have le: "unat n \<le> unat (free_slots_left p1)" using s2 by (simp add: word_less_nat_alt)
  have "unat n * unat sz \<le> unat (free_slots_left p1) * unat sz"
    using le by (rule mult_le_mono1)
  with assms(8) have "unat n * unat sz < 2 ^ 64" by linarith
  then have "unat (n * sz) = unat n * unat sz" by (simp add: unat_mult_lem [THEN iffD1])
  moreover have "0 < unat n * unat sz" using assms(6,7) by (simp add: unat_gt_0)
  ultimately have nz: "n * sz \<noteq> 0" by (metis unat_gt_0)
  have "ptr + a * sz = frontier sz p1" using s1 by simp
  moreover have "frontier sz p2 = frontier sz p1 + n * sz" using s2 by simp
  ultimately have ne: "ptr + a * sz \<noteq> frontier sz p2" using nz by simp
  then show ?thesis
    by (simp add: extend_allocation_def Let_def frontier_def)
qed

subsection \<open>The invariant of an initialised arena\<close>

text \<open>
  The commit loop keeps the frontier on a page boundary, so the range commit,
  \<open>get_allocation\<close> and \<open>extend_allocation\<close> keep the invariant; a successful
  \<open>init_pool\<close> establishes it when the host hands out a mapping that lies inside
  the address space and does not start at the null address.
\<close>

lemma commit_loop_aligned:
  "commit_loop h p x pg = Some r \<Longrightarrow> unat (end_gp p) + unat (page p) < 2 ^ 64 \<Longrightarrow>
     unat x mod unat (page p) = 0 \<Longrightarrow> unat (first_not_commited p) mod unat (page p) = 0 \<Longrightarrow>
     unat (first_not_commited (snd (snd r))) mod unat (page p) = 0"
proof (induction h p x pg r rule: commit_loop_induct)
  case (step f h p x pg r)
  show ?case
  proof (cases "x < pg")
    case False
    with step(2) step.prems show ?thesis by auto
  next
    case True
    obtain ok h1 p1 where cp: "commit_page h p x = (ok, h1, p1)"
      by (cases "commit_page h p x") auto
    show ?thesis
    proof (cases ok)
      case False
      with step(2) True cp commit_page_failed [of h p x h1 p1] step.prems show ?thesis by auto
    next
      case ok: True
      from cp ok have cpT: "commit_page h p x = (True, h1, p1)" by simp
      note c = commit_page_ok [OF cpT]
      have pg1: "page p1 = page p" "end_gp p1 = end_gp p" using c by (simp_all add: page_def)
      from step(2) True cp ok have l: "f h1 p1 (x + page p1) pg = Some r" by simp
      have nw: "unat (x + page p) = unat x + unat (page p)"
        using c step.prems(1) by (intro step_no_wrap [of x "end_gp p"]) auto
      have al: "unat (x + page p) mod unat (page p) = 0" using nw step.prems(2) by simp
      have "unat (first_not_commited (snd (snd r))) mod unat (page p1) = 0"
      proof (rule step(1) [OF l])
        show "unat (end_gp p1) + unat (page p1) < 2 ^ 64" using step.prems(1) pg1 by simp
        show "unat (x + page p1) mod unat (page p1) = 0" using al pg1 by simp
        show "unat (first_not_commited p1) mod unat (page p1) = 0" using al pg1 c by simp
      qed
      with pg1 show ?thesis by simp
    qed
  qed
qed

lemma crc_aligned:
  assumes "checked_range_commit h p pg = Some (ok, h', p')"
    and "unat (end_gp p) + unat (page p) < 2 ^ 64"
    and "unat (first_not_commited p) mod unat (page p) = 0"
  shows "unat (first_not_commited p') mod unat (page p) = 0"
proof (cases "pg > first_not_commited p")
  case True
  with assms have "commit_loop h p (first_not_commited p) pg = Some (ok, h', p')"
    by (simp add: checked_range_commit_def)
  from commit_loop_aligned [OF this assms(2) assms(3) assms(3)] show ?thesis by simp
next
  case False
  with assms show ?thesis by (simp add: checked_range_commit_def)
qed

lemma crc_inv:
  assumes "arena_inv sz h p" and "checked_range_commit h p pg = Some (ok, h', p')"
  shows "arena_inv sz h' p'"
proof -
  have nw: "unat (end_gp p) + unat (page p) < 2 ^ 64"
    and al: "unat (first_not_commited p) mod unat (page p) = 0"
    using assms(1) by (simp_all add: arena_inv_def layout_ok_def)
  note f = crc_pool [OF assms(2)]
  note hh = crc_host [OF assms(2)]
  have pg: "page p' = page p" using f by (simp add: page_def)
  have "first_not_commited p \<le> first_not_commited p'" by (rule crc_frontier [OF assms(2) nw])
  then have m: "unat (first_not_commited p) \<le> unat (first_not_commited p')"
    by (simp add: word_le_nat_alt)
  note a = crc_aligned [OF assms(2) nw al]
  from assms(1) f hh pg m a show ?thesis
    by (simp add: arena_inv_def layout_ok_def)
qed

lemma bump_inv:
  assumes "arena_inv sz h p" and "\<not> free_slots_left p < n"
  shows "arena_inv sz h (p\<lparr>occupied_slots := occupied_slots p + n,
                            free_slots_left := free_slots_left p - n\<rparr>)"
proof -
  let ?O = "unat (occupied_slots p)" and ?F = "unat (free_slots_left p)" and ?S = "unat sz"
  have le: "unat n \<le> ?F" using assms(2) by (simp add: word_less_nat_alt)
  then have f: "unat (free_slots_left p - n) = ?F - unat n"
    by (simp add: unat_sub word_le_nat_alt)
  have cap: "unat (allocation_area p) + (?O + ?F) * ?S \<le> unat (end_gp p)"
    using assms(1) by (simp add: arena_inv_def)
  have "unat (occupied_slots p + n) \<le> ?O + unat n"
    by (simp add: unat_word_ariths)
  then have "unat (occupied_slots p + n) + (?F - unat n) \<le> ?O + ?F" using le by simp
  then have "(unat (occupied_slots p + n) + (?F - unat n)) * ?S \<le> (?O + ?F) * ?S"
    by (rule mult_le_mono1)
  with cap have "unat (allocation_area p)
      + (unat (occupied_slots p + n) + (?F - unat n)) * ?S \<le> unat (end_gp p)"
    by linarith
  with f have "unat (allocation_area p)
      + (unat (occupied_slots p + n) + unat (free_slots_left p - n)) * ?S \<le> unat (end_gp p)"
    by (simp only:)
  moreover have "page (p\<lparr>occupied_slots := occupied_slots p + n,
      free_slots_left := free_slots_left p - n\<rparr>) = page p"
    by (simp add: page_def)
  ultimately show ?thesis using assms(1) by (simp add: arena_inv_def layout_ok_def)
qed

lemma get_allocation_inv:
  assumes "arena_inv sz h p" and "get_allocation sz h p n = Some (q, h', p')"
  shows "arena_inv sz h' p'"
proof -
  have b: "begin_gp p \<noteq> 0" using assms(1) by (simp add: arena_inv_def layout_ok_def)
  from get_allocation_result [OF b assms(2)] show ?thesis
  proof
    assume "q = 0 \<and> h' = h \<and> p' = p"
    with assms(1) show ?thesis by simp
  next
    assume "\<exists>p2 r. checked_range_commit h p
                   (allocation_area p + occupied_slots p * sz + n * sz - 1)
                 = Some (r, h', p2)
              \<and> \<not> free_slots_left p < n
              \<and> q = (if r then frontier sz p2 else 0)
              \<and> p' = (if r then p2\<lparr>occupied_slots := occupied_slots p2 + n,
                          free_slots_left := free_slots_left p2 - n\<rparr>
                       else p2)"
    then obtain p2 r where
      c: "checked_range_commit h p (allocation_area p + occupied_slots p * sz + n * sz - 1)
            = Some (r, h', p2)"
      and fr: "\<not> free_slots_left p < n"
      and p': "p' = (if r then p2\<lparr>occupied_slots := occupied_slots p2 + n,
                          free_slots_left := free_slots_left p2 - n\<rparr> else p2)"
      by blast
    note i2 = crc_inv [OF assms(1) c]
    have "\<not> free_slots_left p2 < n" using fr crc_pool [OF c] by simp
    from bump_inv [OF i2 this] i2 p' show ?thesis by simp
  qed
qed

lemma extend_allocation_inv:
  assumes "arena_inv sz h p"
    and "extend_allocation sz h p ptr old_nmbr new_nmbr = Some (ok, h', p')"
  shows "arena_inv sz h' p'"
proof -
  from extend_allocation_result [OF assms(2)] show ?thesis
  proof
    assume "\<not> ok \<and> h' = h \<and> p' = p"
    with assms(1) show ?thesis by simp
  next
    assume "\<exists>p2 r. checked_range_commit h p
                   (allocation_area p + occupied_slots p * sz + (new_nmbr - old_nmbr) * sz - 1)
                 = Some (r, h', p2)
              \<and> ok = r \<and> ptr \<noteq> 0 \<and> begin_gp p \<noteq> 0
              \<and> \<not> free_slots_left p < new_nmbr - old_nmbr
              \<and> ptr + old_nmbr * sz = frontier sz p
              \<and> p' = (if r then p2\<lparr>occupied_slots := occupied_slots p2 + (new_nmbr - old_nmbr),
                          free_slots_left := free_slots_left p2 - (new_nmbr - old_nmbr)\<rparr>
                       else p2)"
    then obtain p2 r where
      c: "checked_range_commit h p
            (allocation_area p + occupied_slots p * sz + (new_nmbr - old_nmbr) * sz - 1)
            = Some (r, h', p2)"
      and fr: "\<not> free_slots_left p < new_nmbr - old_nmbr"
      and p': "p' = (if r then p2\<lparr>occupied_slots := occupied_slots p2 + (new_nmbr - old_nmbr),
                          free_slots_left := free_slots_left p2 - (new_nmbr - old_nmbr)\<rparr>
                       else p2)"
      by blast
    note i2 = crc_inv [OF assms(1) c]
    have "\<not> free_slots_left p2 < new_nmbr - old_nmbr" using fr crc_pool [OF c] by simp
    from bump_inv [OF i2 this] i2 p' show ?thesis by simp
  qed
qed

lemma init_pool_inv:
  assumes i: "init_pool sz h p req = (True, h', p')"
    and ps: "pagesize p = 0 \<or> pagesize p = h_pagesize h"
    and r1: "- (2 ^ 30) \<le> sint (pagesize p')" and r2: "sint (pagesize p') < 2 ^ 30"
    and b0: "begin_gp p' \<noteq> 0" and pos: "0 < unat (page p')"
    and nw: "unat (begin_gp p') + unat (pages_mmaped p') * unat (page p') < 2 ^ 64"
  shows "arena_inv sz h' p'"
proof -
  let ?n = "unat (pages_mmaped p')" and ?P = "unat (page p')" and ?b = "unat (begin_gp p')"
  note s = init_pool_success [OF i]
  have s_ps: "pagesize p' = (if pagesize p = 0 then h_pagesize h else pagesize p)"
    and s_area: "allocation_area p' = begin_gp p' + page p'"
    and s_end: "end_gp p' = begin_gp p' + (pages_mmaped p' - 1) * page p'"
    and s_fnc: "first_not_commited p' = allocation_area p' + page p'"
    and s_occ: "occupied_slots p' = 0"
    and s_al: "page_aligned h (allocation_area p')"
    using s by blast+
  have hh: "h_pagesize h' = h_pagesize h" using init_pool_success_host [OF i] by blast
  from init_pool_capacity [OF i r1 r2] nw pos
  have two: "2 \<le> ?n"
    and fr: "unat (free_slots_left p') = ((?n - 2) * ?P) div unat sz"
    by blast+
  have psz: "pagesize p' = h_pagesize h'" using s_ps ps hh by auto
  have "?b + ?P \<le> ?b + ?n * ?P" using two by simp
  with nw have "?b + ?P < 2 ^ 64" by linarith
  then have "unat (begin_gp p' + page p') = ?b + ?P"
    by (simp add: unat_add_lem [THEN iffD1])
  then have ua: "unat (allocation_area p') = ?b + ?P" by (simp only: s_area)
  have "(?n - 1) * ?P \<le> ?n * ?P" by (rule mult_le_mono1) simp
  with nw have m1: "(?n - 1) * ?P < 2 ^ 64" and m2: "?b + (?n - 1) * ?P < 2 ^ 64" by linarith+
  have u1: "unat (pages_mmaped p' - 1) = ?n - 1"
    using two by (simp add: unat_sub word_le_nat_alt)
  have um: "unat ((pages_mmaped p' - 1) * page p') = (?n - 1) * ?P"
    using m1 u1 by (simp add: unat_mult_lem [THEN iffD1])
  have "unat (begin_gp p' + (pages_mmaped p' - 1) * page p') = ?b + (?n - 1) * ?P"
    using m2 um by (simp add: unat_add_lem [THEN iffD1])
  then have ue: "unat (end_gp p') = ?b + (?n - 1) * ?P" by (simp only: s_end)
  obtain k where k: "?n = Suc (Suc k)"
    using two by (metis add_2_eq_Suc le_Suc_ex)
  have np: "?n * ?P = (?n - 1) * ?P + ?P" by (simp add: k)
  have e_top: "unat (end_gp p') + ?P < 2 ^ 64" using ue nw np by simp
  have "2 * ?P \<le> ?n * ?P" using two by (rule mult_le_mono1)
  with nw have "unat (allocation_area p') + ?P < 2 ^ 64" using ua by linarith
  then have "unat (allocation_area p' + page p') = unat (allocation_area p') + ?P"
    by (simp add: unat_add_lem [THEN iffD1])
  then have uf: "unat (first_not_commited p') = unat (allocation_area p') + ?P"
    by (simp only: s_fnc)
  have "unat (allocation_area p') mod unat (scast (h_pagesize h) :: size_t) = 0"
    using s_al by (simp only: page_aligned_unat)
  then have "unat (allocation_area p') mod ?P = 0"
    using psz hh by (simp add: page_def)
  then have al: "unat (first_not_commited p') mod ?P = 0" using uf by simp
  have le: "unat (allocation_area p') \<le> unat (first_not_commited p')" using uf by simp
  have "(unat (free_slots_left p')) * unat sz \<le> (?n - 2) * ?P"
    using fr by simp
  moreover have "?b + ?P + (?n - 2) * ?P = ?b + (?n - 1) * ?P"
    by (simp add: k)
  ultimately have "unat (allocation_area p') + unat (free_slots_left p') * unat sz
      \<le> unat (end_gp p')"
    using ua ue by linarith
  then have cap: "unat (allocation_area p')
      + (unat (occupied_slots p') + unat (free_slots_left p')) * unat sz \<le> unat (end_gp p')"
    by (simp add: s_occ)
  show ?thesis
    unfolding arena_inv_def layout_ok_def
    using b0 pos e_top psz ua le al cap by blast
qed

subsection \<open>Runs of allocations\<close>

text \<open>
  In a run whose calls all return a non-null pointer the requests add up to no
  more than the free slots at the start, and the frontier moves by their sum.
\<close>

lemma alloc_seq_length:
  "alloc_seq sz h p ns = Some (qs, h', p') \<Longrightarrow> length qs = length ns"
  by (induction ns arbitrary: h p qs) (auto split: option.splits)






section \<open>Properties stated by the specification\<close>

subsection \<open>Extension in place\<close>




subsection \<open>Ownership test\<close>

text \<open>
  With the leading guard page below the usable area, no address is above
  \<open>allocation_area\<close> and below \<open>begin_gp\<close>.
\<close>

lemma owns_never:
  "begin_gp p \<le> allocation_area p \<Longrightarrow> owns p a = False"
  by (auto simp: owns_def)

text \<open>
  C2 (containment). The claim: for a successful \<open>allocate(n)\<close> returning \<open>p\<close>, both
  \<open>owns(p)\<close> and \<open>owns(p + n * slot_size - 1)\<close> are true. The code compares with
  \<open>begin_gp\<close> where the end of the usable area is meant: on the arena of 4 pages
  of 4096 bytes with 8-byte slots, mapped at \<open>0x10000\<close>, \<open>get_allocation(10)\<close>
  returns \<open>0x11000\<close>, and \<open>owns\<close> is false at the first and at the last byte of
  the block.
\<close>

theorem owns_rejects_allocated_block:
  "init_pool 8 linux_host empty_pool 4 = (True, host4, arena4)
   \<and> get_allocation 8 host4 arena4 10
       = Some (0x11000, host4, arena4\<lparr>occupied_slots := 10, free_slots_left := 1014\<rparr>)
   \<and> owns (arena4\<lparr>occupied_slots := 10, free_slots_left := 1014\<rparr>) 0x11000 = False
   \<and> owns (arena4\<lparr>occupied_slots := 10, free_slots_left := 1014\<rparr>) (0x11000 + 10 * 8 - 1) = False"
  by (simp add: owns_def eval_defs)

subsection \<open>Bump allocation\<close>






subsection \<open>Exhaustion\<close>

text \<open>
  C4 (capacity), as amended. On an initialised arena \<open>get_allocation(n)\<close> returns
  null, with host and arena untouched, whenever \<open>n\<close> exceeds \<open>free_slots_left\<close>;
  and whenever it returns null on an initialised arena whose bump frontier
  is not the null address, \<open>occupied_slots\<close> and \<open>free_slots_left\<close> are the same
  after the call as before.
\<close>

theorem get_allocation_capacity:
  assumes "begin_gp p \<noteq> 0"
  shows "(free_slots_left p < n \<longrightarrow> get_allocation sz h p n = Some (0, h, p))
       \<and> (frontier sz p \<noteq> 0 \<longrightarrow> get_allocation sz h p n = Some (0, h', p') \<longrightarrow>
            occupied_slots p' = occupied_slots p \<and> free_slots_left p' = free_slots_left p)"
  using get_allocation_exhausted [OF assms] get_allocation_null [OF assms] by blast

theorem get_allocation_capacity_witness:
  "begin_gp arena4 \<noteq> 0 \<and> free_slots_left arena4 < 1025 \<and> frontier 8 arena4 \<noteq> 0
   \<and> get_allocation 8 host4 arena4 1025 = Some (0, host4, arena4)
   \<and> get_allocation 8 refusing_host arena4 1000
        = Some (0, refusing_host\<lparr>calls := 3\<rparr>, arena4)
   \<and> occupied_slots arena4 = 0 \<and> free_slots_left arena4 = 1024"
  using get_allocation_capacity [of arena4 1025 8 host4 host4 arena4]
    get_allocation_capacity [of arena4 1000 8 refusing_host "refusing_host\<lparr>calls := 3\<rparr>" arena4]
  by (simp add: eval_defs commit_loop.simps)

text \<open>
  The claim as stated speaks of every arena state. On the arena that was never
  initialised \<open>free_slots_left\<close> is 0, and \<open>get_allocation(1)\<close> maps the ten
  default pages first and succeeds; \<open>get_allocation(5000)\<close> fails after the same
  lazy initialisation, which has moved \<open>free_slots_left\<close> from 0 to 4096.
\<close>

theorem lazy_init_counterexample:
  "free_slots_left empty_pool < 1
   \<and> get_allocation 8 linux_host empty_pool 1
       = Some (0x11000, host4, arena4\<lparr>occupied_slots := 1, free_slots_left := 4095,
                 end_gp := 0x19000, pages_mmaped := 10\<rparr>)
   \<and> get_allocation 8 linux_host empty_pool 5000
       = Some (0, host4, arena4\<lparr>free_slots_left := 4096, end_gp := 0x19000, pages_mmaped := 10\<rparr>)"
  by (simp add: eval_defs)

subsection \<open>The ceiling of the facade\<close>




subsection \<open>Capacity after initialisation\<close>

text \<open>
  C6 (free slots after \<open>init_pool\<close>). When \<open>init_pool(pgs)\<close> returns true (and
  \<open>2 * pagesize\<close> does not overflow \<open>int\<close>), \<open>pages_mmaped\<close> is \<open>pgs\<close>, or ten
  when \<open>pgs\<close> is zero, and \<open>free_slots_left\<close> is
  \<open>(pages_mmaped - 2) * pagesize / sizeof(elem_type)\<close> in 64-bit arithmetic; when
  the mapping lies inside the address space there are at least two pages and
  the same holds in the natural numbers. With 4 pages of 4096 bytes and
  8-byte slots, \<open>free_slots_left\<close> is 1024.
\<close>

theorem init_pool_free_slots:
  assumes "init_pool sz h p req = (True, h', p')"
    and "- (2 ^ 30) \<le> sint (pagesize p')" and "sint (pagesize p') < 2 ^ 30"
  shows "pages_mmaped p' = (if req = 0 then 10 else req)
       \<and> free_slots_left p' = ((pages_mmaped p' - 2) * page p') div sz
       \<and> (unat (begin_gp p') + unat (pages_mmaped p') * unat (page p') < 2 ^ 64
            \<and> 0 < unat (page p')
          \<longrightarrow> 2 \<le> unat (pages_mmaped p')
              \<and> unat (free_slots_left p')
                  = ((unat (pages_mmaped p') - 2) * unat (page p')) div unat sz)"
  using assms by (rule init_pool_capacity)

theorem init_pool_free_slots_witness:
  "init_pool 8 linux_host empty_pool 4 = (True, host4, arena4)
   \<and> - (2 ^ 30) \<le> sint (pagesize arena4) \<and> sint (pagesize arena4) < 2 ^ 30
   \<and> unat (begin_gp arena4) + unat (pages_mmaped arena4) * unat (page arena4) < 2 ^ 64
   \<and> 0 < unat (page arena4)
   \<and> free_slots_left arena4 = 1024
   \<and> unat (free_slots_left arena4) = ((4 - 2) * 4096) div 8
   \<and> pages_mmaped (snd (snd (init_pool 8 linux_host empty_pool 0))) = 10
   \<and> free_slots_left (snd (snd (init_pool 8 linux_host empty_pool 0))) = (10 - 2) * 4096 div 8"
  using init_pool_free_slots [of 8 linux_host empty_pool 4 host4 arena4]
  by (simp add: eval_defs)

subsection \<open>The commit frontier\<close>




subsection \<open>Rejected commits\<close>

text \<open>
  C8 (\<open>commit_page\<close> rejects). When \<open>pg\<close> is not a multiple of the host's page size,
  or is below \<open>begin_gp + pagesize\<close>, or above \<open>end_gp\<close>, \<open>commit_page(pg)\<close>
  returns false, the arena (with its \<open>first_not_commited\<close>) is unchanged and no
  page has changed its protection. The bounds are checked by \<open>commit_page\<close>
  itself, the alignment by the host's \<open>mprotect\<close>.
\<close>

theorem commit_page_rejects:
  assumes "\<not> page_aligned h pg \<or> pg < begin_gp p + page p \<or> end_gp p < pg"
  shows "fst (commit_page h p pg) = False \<and> snd (snd (commit_page h p pg)) = p
       \<and> writable (fst (snd (commit_page h p pg))) = writable h"
  using assms by (auto simp: commit_page_def sys_mprotect_rw_def Let_def)

theorem commit_page_rejects_witness:
  "\<not> page_aligned host4 0x12001 \<and> 0x10800 < begin_gp arena4 + page arena4
   \<and> end_gp arena4 < 0x14000
   \<and> fst (commit_page host4 arena4 0x12001) = False
   \<and> snd (snd (commit_page host4 arena4 0x12001)) = arena4
   \<and> snd (snd (commit_page host4 arena4 0x10800)) = arena4
   \<and> snd (snd (commit_page host4 arena4 0x14000)) = arena4
   \<and> writable (fst (snd (commit_page host4 arena4 0x12001))) = writable host4"
  using commit_page_rejects [of host4 "0x12001" arena4]
    commit_page_rejects [of host4 "0x10800" arena4]
    commit_page_rejects [of host4 "0x14000" arena4]
  by (simp add: page_aligned_def host4_def linux_host_def arena4_def page_def)

subsection \<open>Shrinking by extension\<close>



subsection \<open>Unchecked free\<close>

text \<open>
  C10 (\<open>delete_allocation\<close> validates nothing). On an initialised arena and for a
  non-null pointer, \<open>delete_allocation(ptr, n)\<close> returns true for every \<open>n\<close>,
  \<open>occupied_slots\<close> becomes \<open>occupied_slots - n\<close> and \<open>free_slots_left\<close> becomes
  \<open>free_slots_left + n\<close>, both modulo \<open>2^64\<close>, nothing else changes, and the sum
  of the two counters is preserved modulo \<open>2^64\<close>.
\<close>

theorem delete_allocation_unchecked:
  assumes "begin_gp p \<noteq> 0" and "ptr \<noteq> 0"
  shows "delete_allocation p ptr n =
           (True, p\<lparr>occupied_slots := occupied_slots p - n,
                    free_slots_left := free_slots_left p + n\<rparr>)
       \<and> uint (occupied_slots (snd (delete_allocation p ptr n)))
           = (uint (occupied_slots p) - uint n) mod 2 ^ 64
       \<and> uint (free_slots_left (snd (delete_allocation p ptr n)))
           = (uint (free_slots_left p) + uint n) mod 2 ^ 64
       \<and> occupied_slots (snd (delete_allocation p ptr n))
           + free_slots_left (snd (delete_allocation p ptr n))
           = occupied_slots p + free_slots_left p"
  using assms by (simp add: delete_allocation_def uint_word_ariths)

theorem delete_allocation_unchecked_witness:
  "begin_gp arena4 \<noteq> 0 \<and> (0x11000 :: addr) \<noteq> 0 \<and> occupied_slots arena4 < 5
   \<and> delete_allocation arena4 0x11000 5
       = (True, arena4\<lparr>occupied_slots := 0xFFFFFFFFFFFFFFFB, free_slots_left := 1029\<rparr>)"
  using delete_allocation_unchecked [of arena4 "0x11000" 5]
  by (simp add: arena4_def)

end
